theory Spec2Isabelle
  imports Complex_Main "HOL-Library.AList" "HOL-Library.Multiset"
begin

section \<open>Exceptions, log lines and the answers of the operating system\<close>

text \<open>
  The two scripts talk to the outside world through \<open>psutil\<close>, \<open>time.sleep\<close>,
  \<open>requests.get\<close> and a logger. Every outside call either returns a value or raises;
  its outcome is a value of \<open>exn + 'a\<close>, with \<open>Inl\<close> for the exception.
  \<open>KeyboardInterrupt\<close> is the only exception of the model that does not derive from
  Python's \<open>Exception\<close>, so an \<open>except Exception\<close> clause lets it through.
\<close>

datatype exn =
    NoSuchProcess
  | AccessDenied
  | ZombieProcess
  | KeyError string
  | TypeError
  | ValueError
  | OSError
  | RequestException
  | KeyboardInterrupt

fun is_Exception :: "exn \<Rightarrow> bool" where
  "is_Exception KeyboardInterrupt = False"
| "is_Exception _ = True"

fun is_RequestException :: "exn \<Rightarrow> bool" where
  "is_RequestException RequestException = True"
| "is_RequestException _ = False"

text \<open>
  Percentages are Python floats. The code only compares them, and the comparison of two
  finite floats is the comparison of the rationals they denote, so a percentage is a
  \<open>rat\<close>. Values stored in the dictionaries of the process list are tagged.
\<close>

datatype pyval = PInt int | PFloat rat | PStr string

datatype level = DEBUG | INFO | WARNING | ERROR

datatype message =
    FailedCpu exn
  | HighCpu rat rat
  | CpuUsage rat
  | FailedMemory exn
  | HighMemory rat rat
  | MemoryUsage rat
  | HighDisk string rat rat
  | DiskUsage string rat
  | ErrorDisk string exn
  | FailedProcessCount exn
  | HighProcessCount nat int
  | TotalProcesses nat
  | ProcessCheckError nat exn
  | HighCpuDetected
  | HighCpuLine pyval pyval pyval pyval
  | NoHighCpu
  | Starting
  | NewCycle
  | AlertsRaised
  | AllChecksOK
  | CycleCompleted
  | StoppedByUser
  | Unhandled exn

text \<open>
  The log of the model records every call of the logger with its level. The handlers that
  \<open>setup_logging\<close> installs pass on the lines from \<open>INFO\<close> upwards only, so a line
  tagged \<open>DEBUG\<close> is a call that writes nothing to the file or the console.
\<close>

type_synonym log = "(level \<times> message) list"

text \<open>
  A computation that writes log lines and then returns or raises: the lines written so far
  are kept when it raises, as they are already in the log file.
\<close>

type_synonym 'a logged = "log \<times> (exn + 'a)"

definition ret :: "'a \<Rightarrow> 'a logged" where
  "ret x = ([], Inr x)"

definition raise :: "exn \<Rightarrow> 'a logged" where
  "raise e = ([], Inl e)"

definition logging :: "level \<times> message \<Rightarrow> 'a logged \<Rightarrow> 'a logged" where
  "logging line m = (line # fst m, snd m)"

definition bind_logged :: "'a logged \<Rightarrow> ('a \<Rightarrow> 'b logged) \<Rightarrow> 'b logged" where
  "bind_logged m f =
     (case snd m of
        Inl e \<Rightarrow> (fst m, Inl e)
      | Inr x \<Rightarrow> (fst m @ fst (f x), snd (f x)))"

text \<open>
  What the host answers during one monitoring cycle. \<open>process_iter\<close> yields handles whose
  \<open>info\<close> dictionary is already filled; the first \<open>cpu_percent(None)\<close> on a handle gives a
  baseline reading that the code throws away. In the second pass each process id is
  opened again with \<open>psutil.Process(pid)\<close> and asked for its CPU and memory percent.
\<close>

record proc_handle =
  info_pid :: nat
  info_name :: "string option"
  init_cpu_percent :: "exn + rat"

record probe =
  open_process :: "exn + unit"
  proc_cpu_percent :: "exn + rat option"
  proc_memory_percent :: "exn + rat"

record world =
  sys_cpu_percent :: "rat \<Rightarrow> exn + rat"
  sys_virtual_memory :: "exn + rat"
  sys_disk_usage :: "string \<Rightarrow> exn + rat"
  sys_pids :: "exn + nat list"
  sys_process_iter :: "proc_handle list"
  sys_process :: "nat \<Rightarrow> probe"
  sys_sleep_sample :: "rat \<Rightarrow> exn + unit"
  sys_sleep_main :: "int \<Rightarrow> exn + unit"

section \<open>The checks of \<open>system_health_monitor.py\<close>\<close>

subsection \<open>\<open>check_cpu_usage\<close> and \<open>check_memory_usage\<close>\<close>

definition check_cpu_usage :: "rat \<Rightarrow> rat \<Rightarrow> world \<Rightarrow> (rat option \<times> bool) logged" where
  "check_cpu_usage threshold sample_interval w =
     (case sys_cpu_percent w sample_interval of
        Inl e \<Rightarrow>
          if is_Exception e then logging (ERROR, FailedCpu e) (ret (None, False))
          else raise e
      | Inr cpu_percent \<Rightarrow>
          if cpu_percent > threshold
          then logging (WARNING, HighCpu cpu_percent threshold) (ret (Some cpu_percent, True))
          else logging (INFO, CpuUsage cpu_percent) (ret (Some cpu_percent, False)))"

definition check_memory_usage :: "rat \<Rightarrow> world \<Rightarrow> (rat option \<times> bool) logged" where
  "check_memory_usage threshold w =
     (case sys_virtual_memory w of
        Inl e \<Rightarrow>
          if is_Exception e then logging (ERROR, FailedMemory e) (ret (None, False))
          else raise e
      | Inr mem_percent \<Rightarrow>
          if mem_percent > threshold
          then logging (WARNING, HighMemory mem_percent threshold) (ret (Some mem_percent, True))
          else logging (INFO, MemoryUsage mem_percent) (ret (Some mem_percent, False)))"

subsection \<open>\<open>check_disk_usage\<close>\<close>

text \<open>
  The \<open>for\<close> loop over the paths, with the list \<open>alerts\<close> it appends to. The \<open>try\<close> is
  inside the loop; its \<open>except Exception\<close> clause writes the failure with \<open>logger.info\<close>.
\<close>

fun disk_loop :: "string list \<Rightarrow> rat \<Rightarrow> world \<Rightarrow> (string \<times> rat) list
    \<Rightarrow> (string \<times> rat) list logged" where
  "disk_loop [] threshold w alerts = ret alerts"
| "disk_loop (path # paths) threshold w alerts =
     (case sys_disk_usage w path of
        Inr pct \<Rightarrow>
          if pct > threshold
          then logging (WARNING, HighDisk path pct threshold)
                 (disk_loop paths threshold w (alerts @ [(path, pct)]))
          else logging (INFO, DiskUsage path pct) (disk_loop paths threshold w alerts)
      | Inl e \<Rightarrow>
          if is_Exception e
          then logging (INFO, ErrorDisk path e) (disk_loop paths threshold w alerts)
          else raise e)"

definition check_disk_usage :: "string list \<Rightarrow> rat \<Rightarrow> world \<Rightarrow> (string \<times> rat) list logged" where
  "check_disk_usage paths threshold w = disk_loop paths threshold w []"

subsection \<open>\<open>check_running_processes\<close>\<close>

text \<open>Lines 108 to 120: the process count and its alert.\<close>

definition read_process_count :: "world \<Rightarrow> nat option logged" where
  "read_process_count w =
     (case sys_pids w of
        Inr ps \<Rightarrow> ret (Some (length ps))
      | Inl e \<Rightarrow>
          if is_Exception e then logging (ERROR, FailedProcessCount e) (ret None)
          else raise e)"

definition count_alerts :: "nat option \<Rightarrow> int \<Rightarrow> (string \<times> nat) list logged" where
  "count_alerts process_count process_count_threshold =
     (case process_count of
        None \<Rightarrow> ret []
      | Some n \<Rightarrow>
          if int n > process_count_threshold
          then logging (WARNING, HighProcessCount n process_count_threshold)
                 (ret [(''Process Count'', n)])
          else logging (INFO, TotalProcesses n) (ret []))"

text \<open>
  Lines 125 to 138, the first pass. \<open>procs\<close> is a Python dictionary: assigning to a key it
  already holds keeps the key's place, a new key goes to the end, which is what
  \<open>AList.update\<close> does. The inner \<open>except\<close> names \<open>NoSuchProcess\<close> and \<open>ZombieProcess\<close>,
  the outer one adds \<open>AccessDenied\<close>; anything else leaves the function.
\<close>

definition name_or_empty :: "string option \<Rightarrow> string" where
  "name_or_empty n = (case n of None \<Rightarrow> [] | Some s \<Rightarrow> s)"

fun first_pass :: "proc_handle list \<Rightarrow> (nat \<times> string) list \<Rightarrow> exn + (nat \<times> string) list" where
  "first_pass [] procs = Inr procs"
| "first_pass (proc # rest) procs =
     (case init_cpu_percent proc of
        Inr _ \<Rightarrow> first_pass rest (AList.update (info_pid proc) (name_or_empty (info_name proc)) procs)
      | Inl e \<Rightarrow>
          if e = NoSuchProcess \<or> e = ZombieProcess then first_pass rest procs
          else if e = NoSuchProcess \<or> e = AccessDenied \<or> e = ZombieProcess
          then first_pass rest procs
          else Inl e)"

text \<open>
  Lines 143 to 157, the second pass. The three calls of the \<open>try\<close> body run in order and
  the first one that raises decides.
\<close>

definition measure_process :: "probe \<Rightarrow> exn + (rat option \<times> rat)" where
  "measure_process p =
     (case open_process p of
        Inl e \<Rightarrow> Inl e
      | Inr _ \<Rightarrow>
          (case proc_cpu_percent p of
             Inl e \<Rightarrow> Inl e
           | Inr cpu_pct \<Rightarrow>
               (case proc_memory_percent p of
                  Inl e \<Rightarrow> Inl e
                | Inr mem_pct \<Rightarrow> Inr (cpu_pct, mem_pct))))"

fun soft_failure :: "exn \<Rightarrow> bool" where
  "soft_failure NoSuchProcess = True"
| "soft_failure AccessDenied = True"
| "soft_failure ZombieProcess = True"
| "soft_failure _ = False"

type_synonym entry = "(string \<times> pyval) list"

definition high_entry :: "nat \<Rightarrow> string \<Rightarrow> rat \<Rightarrow> rat \<Rightarrow> entry" where
  "high_entry pid name cpu_pct mem_pct =
     [(''pid'', PInt (int pid)), (''name'', PStr name),
      (''cpu'', PFloat cpu_pct), (''mem'', PFloat mem_pct)]"

fun second_pass :: "rat \<Rightarrow> (nat \<Rightarrow> probe) \<Rightarrow> (nat \<times> string) list \<Rightarrow> entry list
    \<Rightarrow> entry list logged" where
  "second_pass process_cpu_threshold process [] high_cpu_processes = ret high_cpu_processes"
| "second_pass process_cpu_threshold process ((pid, name) # rest) high_cpu_processes =
     (case measure_process (process pid) of
        Inr (cpu_opt, mem_pct) \<Rightarrow>
          (case cpu_opt of
             None \<Rightarrow> second_pass process_cpu_threshold process rest high_cpu_processes
           | Some cpu_pct \<Rightarrow>
               if cpu_pct > process_cpu_threshold
               then second_pass process_cpu_threshold process rest
                      (high_cpu_processes @ [high_entry pid name cpu_pct mem_pct])
               else second_pass process_cpu_threshold process rest high_cpu_processes)
      | Inl e \<Rightarrow>
          if soft_failure e
          then second_pass process_cpu_threshold process rest high_cpu_processes
          else if is_Exception e
          then logging (DEBUG, ProcessCheckError pid e)
                 (second_pass process_cpu_threshold process rest high_cpu_processes)
          else raise e)"

text \<open>
  Lines 160 to 165, the report. \<open>x[k]\<close> on a dictionary raises \<open>KeyError\<close> for a key it
  does not hold. \<open>sorted(xs, key=f, reverse=True)\<close> first applies \<open>f\<close> to every
  element, in order, and then sorts stably: the list is reversed, sorted ascending and
  reversed again, so equal keys keep their order.
\<close>

definition subscript :: "entry \<Rightarrow> string \<Rightarrow> exn + pyval" where
  "subscript d k = (case map_of d k of None \<Rightarrow> Inl (KeyError k) | Some v \<Rightarrow> Inr v)"

fun as_number :: "pyval \<Rightarrow> exn + rat" where
  "as_number (PFloat r) = Inr r"
| "as_number (PInt i) = Inr (of_int i)"
| "as_number (PStr s) = Inl TypeError"

fun eval_keys :: "('a \<Rightarrow> exn + rat) \<Rightarrow> 'a list \<Rightarrow> exn + (rat \<times> 'a) list" where
  "eval_keys key [] = Inr []"
| "eval_keys key (x # xs) =
     (case key x of
        Inl e \<Rightarrow> Inl e
      | Inr k \<Rightarrow> (case eval_keys key xs of Inl e \<Rightarrow> Inl e | Inr kxs \<Rightarrow> Inr ((k, x) # kxs)))"

definition sorted_reverse :: "('a \<Rightarrow> exn + rat) \<Rightarrow> 'a list \<Rightarrow> exn + 'a list" where
  "sorted_reverse key xs =
     (case eval_keys key xs of
        Inl e \<Rightarrow> Inl e
      | Inr kxs \<Rightarrow> Inr (map snd (rev (sort_key fst (rev kxs)))))"

definition number_at :: "string \<Rightarrow> entry \<Rightarrow> exn + rat" where
  "number_at k x = (case subscript x k of Inl e \<Rightarrow> Inl e | Inr v \<Rightarrow> as_number v)"

definition format_line :: "entry \<Rightarrow> exn + message" where
  "format_line p =
     (case subscript p ''pid'' of Inl e \<Rightarrow> Inl e | Inr a \<Rightarrow>
     (case subscript p ''name'' of Inl e \<Rightarrow> Inl e | Inr b \<Rightarrow>
     (case subscript p ''cpu'' of Inl e \<Rightarrow> Inl e | Inr c \<Rightarrow>
     (case subscript p ''mem_percent'' of Inl e \<Rightarrow> Inl e | Inr d \<Rightarrow>
        Inr (HighCpuLine a b c d)))))"

fun log_lines :: "entry list \<Rightarrow> unit logged" where
  "log_lines [] = ret ()"
| "log_lines (p # ps) =
     (case format_line p of
        Inl e \<Rightarrow> raise e
      | Inr line \<Rightarrow> logging (WARNING, line) (log_lines ps))"

definition report_high :: "entry list \<Rightarrow> unit logged" where
  "report_high high_cpu_processes =
     (if high_cpu_processes \<noteq> []
      then logging (WARNING, HighCpuDetected)
             (case sorted_reverse (number_at ''cpu_percent'') high_cpu_processes of
                Inl e \<Rightarrow> raise e
              | Inr ranked \<Rightarrow> log_lines ranked)
      else logging (INFO, NoHighCpu) (ret ()))"

definition lift :: "exn + 'a \<Rightarrow> 'a logged" where
  "lift r = ([], r)"

definition check_running_processes :: "rat \<Rightarrow> int \<Rightarrow> rat \<Rightarrow> world
    \<Rightarrow> (nat option \<times> entry list \<times> (string \<times> nat) list) logged" where
  "check_running_processes process_cpu_threshold process_count_threshold sample_interval w =
     bind_logged (read_process_count w) (\<lambda>process_count.
     bind_logged (count_alerts process_count process_count_threshold) (\<lambda>alerts.
     bind_logged (lift (first_pass (sys_process_iter w) [])) (\<lambda>procs.
     bind_logged (lift (sys_sleep_sample w sample_interval)) (\<lambda>_.
     bind_logged (second_pass process_cpu_threshold (sys_process w) procs []) (\<lambda>high_cpu_processes.
     bind_logged (report_high high_cpu_processes) (\<lambda>_.
       ret (process_count, high_cpu_processes, alerts)))))))"

subsection \<open>\<open>main\<close>\<close>

text \<open>
  The parsed arguments. \<open>disk_paths\<close> is the list after splitting \<open>--disk-paths\<close> at the
  commas.
\<close>

record config =
  interval :: int
  sample_interval :: rat
  cpu_threshold :: rat
  memory_threshold :: rat
  disk_threshold :: rat
  process_cpu_threshold :: rat
  process_count_threshold :: int
  disk_paths :: "string list"

text \<open>The body of the \<open>while True\<close> loop, lines 191 to 210; it returns \<open>cycle_alerts\<close>.\<close>

definition cycle :: "config \<Rightarrow> world \<Rightarrow> bool logged" where
  "cycle args w =
     logging (INFO, NewCycle)
     (bind_logged (check_cpu_usage (cpu_threshold args) (sample_interval args) w) (\<lambda>(_, cpu_alert).
      bind_logged (check_memory_usage (memory_threshold args) w) (\<lambda>(_, mem_alert).
      bind_logged (check_disk_usage (disk_paths args) (disk_threshold args) w) (\<lambda>disk_alerts.
      bind_logged (check_running_processes (process_cpu_threshold args)
                     (process_count_threshold args) (sample_interval args) w)
        (\<lambda>(_, high_cpu_procs, proc_alerts).
      let cycle_alerts =
            (cpu_alert \<or> mem_alert \<or> disk_alerts \<noteq> [] \<or> high_cpu_procs \<noteq> [] \<or> proc_alerts \<noteq> [])
      in logging (if cycle_alerts then (WARNING, AlertsRaised) else (INFO, AllChecksOK))
        (logging (INFO, CycleCompleted)
        (bind_logged (lift (sys_sleep_main w (interval args))) (\<lambda>_. ret cycle_alerts))))))))"

text \<open>
  The loop runs one cycle for each world of the list, which stands for what the host does
  while the monitor is watched. The result \<open>None\<close> says that the loop is still running
  after the last world; \<open>Some e\<close> says that \<open>e\<close> left the loop body.
\<close>

fun main_loop :: "config \<Rightarrow> world list \<Rightarrow> log \<times> exn option" where
  "main_loop args [] = ([], None)"
| "main_loop args (w # ws) =
     (case snd (cycle args w) of
        Inl e \<Rightarrow> (fst (cycle args w), Some e)
      | Inr _ \<Rightarrow> (fst (cycle args w) @ fst (main_loop args ws), snd (main_loop args ws)))"

text \<open>
  The \<open>try\<close> statement is around the loop. Both handlers log one line and fall off the end
  of \<open>main\<close>, so the script ends with status 0.
\<close>

datatype run_state = Running | Returned | Escaped exn

definition main :: "config \<Rightarrow> world list \<Rightarrow> log \<times> run_state" where
  "main args ws =
     (case snd (main_loop args ws) of
        None \<Rightarrow> ((INFO, Starting) # fst (main_loop args ws), Running)
      | Some e \<Rightarrow>
          if e = KeyboardInterrupt
          then ((INFO, Starting) # fst (main_loop args ws) @ [(INFO, StoppedByUser)], Returned)
          else if is_Exception e
          then ((INFO, Starting) # fst (main_loop args ws) @ [(ERROR, Unhandled e)], Returned)
          else ((INFO, Starting) # fst (main_loop args ws), Escaped e))"

fun exit_status :: "run_state \<Rightarrow> int option" where
  "exit_status Running = None"
| "exit_status Returned = Some 0"
| "exit_status (Escaped e) = Some 1"

section \<open>\<open>check_app_status\<close> of \<open>app_uptime_monitor.py\<close>\<close>

text \<open>
  \<open>requests.get(url, timeout=timeout)\<close> returns a response, of which the code reads the
  status code, or raises.
\<close>

definition check_app_status :: "(string \<Rightarrow> int \<Rightarrow> exn + int) \<Rightarrow> string \<Rightarrow> int
    \<Rightarrow> exn + (string \<times> int option)" where
  "check_app_status requests_get url timeout =
     (case requests_get url timeout of
        Inr code \<Rightarrow>
          if 200 \<le> code \<and> code < 300 then Inr (''UP'', Some code)
          else Inr (''DOWN'', Some code)
      | Inl e \<Rightarrow>
          if is_RequestException e then Inr (''DOWN'', None)
          else Inl e)"


section \<open>Sample hosts\<close>

text \<open>
  The default arguments of the parser, and a few hosts on which the model is run: a calm
  one, and variations of it in which one answer differs.
\<close>

definition args0 :: config where
  "args0 = \<lparr>interval = 60, sample_interval = 1/2, cpu_threshold = 80, memory_threshold = 80,
     disk_threshold = 90, process_cpu_threshold = 20, process_count_threshold = 500,
     disk_paths = [''/'']\<rparr>"

definition idle_probe :: probe where
  "idle_probe = \<lparr>open_process = Inr (), proc_cpu_percent = Inr (Some 0),
     proc_memory_percent = Inr (1/2)\<rparr>"

definition gone_probe :: probe where
  "gone_probe = \<lparr>open_process = Inl NoSuchProcess, proc_cpu_percent = Inr (Some 0),
     proc_memory_percent = Inr (1/2)\<rparr>"

definition hot_probe :: probe where
  "hot_probe = \<lparr>open_process = Inr (), proc_cpu_percent = Inr (Some 50),
     proc_memory_percent = Inr (3/2)\<rparr>"

definition handle :: "nat \<Rightarrow> string \<Rightarrow> proc_handle" where
  "handle pid name = \<lparr>info_pid = pid, info_name = Some name, init_cpu_percent = Inr 0\<rparr>"

definition no_answer :: "exn + unit" where
  "no_answer = Inr ()"

definition all_idle :: "nat \<Rightarrow> probe" where
  "all_idle pid = idle_probe"

definition seven_hot :: "nat \<Rightarrow> probe" where
  "seven_hot pid = (if pid = 7 then hot_probe else idle_probe)"

definition seven_gone :: "nat \<Rightarrow> probe" where
  "seven_gone pid = (if pid = 7 then gone_probe else idle_probe)"

definition seven_gone_nine_hot :: "nat \<Rightarrow> probe" where
  "seven_gone_nine_hot pid =
     (if pid = 7 then gone_probe else if pid = 9 then hot_probe else idle_probe)"

definition disks :: "string \<Rightarrow> exn + rat" where
  "disks path =
     (if path = ''/nope'' then Inl OSError
      else if path = ''/data'' then Inr 95
      else Inr 90)"

definition calm :: world where
  "calm = \<lparr>sys_cpu_percent = (\<lambda>i. Inr 50), sys_virtual_memory = Inr 40,
     sys_disk_usage = disks, sys_pids = Inr [1, 7],
     sys_process_iter = [handle 1 ''init'', handle 7 ''worker''],
     sys_process = all_idle,
     sys_sleep_sample = (\<lambda>i. no_answer), sys_sleep_main = (\<lambda>i. no_answer)\<rparr>"

definition busy :: world where
  "busy = calm\<lparr>sys_process := seven_hot\<rparr>"

definition vanishing :: world where
  "vanishing = calm\<lparr>sys_process := seven_gone\<rparr>"

definition without_seven :: world where
  "without_seven = vanishing\<lparr>sys_process_iter := [handle 1 ''init'']\<rparr>"

definition mixed :: world where
  "mixed = calm\<lparr>sys_process_iter := [handle 1 ''init'', handle 7 ''worker'', handle 9 ''stress''],
     sys_process := seven_gone_nine_hot\<rparr>"

definition uncounted :: world where
  "uncounted = calm\<lparr>sys_pids := Inl OSError\<rparr>"

definition uncounted_busy :: world where
  "uncounted_busy = busy\<lparr>sys_pids := Inl OSError\<rparr>"

definition faulty :: world where
  "faulty = calm\<lparr>sys_process_iter :=
     [\<lparr>info_pid = 1, info_name = Some ''init'', init_cpu_percent = Inl OSError\<rparr>]\<rparr>"

definition interrupted :: world where
  "interrupted = calm\<lparr>sys_sleep_main := (\<lambda>i. Inl KeyboardInterrupt)\<rparr>"

definition level :: world where
  "level = calm\<lparr>sys_cpu_percent := (\<lambda>i. Inr 50), sys_virtual_memory := Inr 50,
     sys_disk_usage := (\<lambda>p. Inr 50), sys_process := seven_hot\<rparr>"

definition sample_get :: "string \<Rightarrow> int \<Rightarrow> exn + int" where
  "sample_get url timeout =
     (if timeout \<le> 0 then Inl ValueError
      else if url = ''http://up.example'' then Inr 204
      else if url = ''http://down.example'' then Inr 503
      else Inl RequestException)"

definition interrupted_get :: "string \<Rightarrow> int \<Rightarrow> exn + int" where
  "interrupted_get url timeout = Inl KeyboardInterrupt"

lemmas host_defs =
  args0_def idle_probe_def gone_probe_def hot_probe_def handle_def no_answer_def all_idle_def
  seven_hot_def seven_gone_def seven_gone_nine_hot_def disks_def calm_def busy_def
  vanishing_def without_seven_def mixed_def uncounted_def uncounted_busy_def faulty_def
  interrupted_def level_def

lemmas run_defs =
  ret_def raise_def logging_def bind_logged_def lift_def
  check_cpu_usage_def check_memory_usage_def check_disk_usage_def
  read_process_count_def count_alerts_def name_or_empty_def measure_process_def
  high_entry_def subscript_def sorted_reverse_def number_at_def format_line_def
  report_high_def check_running_processes_def cycle_def main_def

section \<open>The writer of log lines\<close>


lemma snd_ret [simp]: "snd (ret x) = Inr x" and fst_ret [simp]: "fst (ret x) = []"
  by (simp_all add: ret_def)

lemma snd_raise [simp]: "snd (raise e) = Inl e" and fst_raise [simp]: "fst (raise e) = []"
  by (simp_all add: raise_def)

lemma snd_logging [simp]: "snd (logging l m) = snd m"
  and fst_logging [simp]: "fst (logging l m) = l # fst m"
  by (simp_all add: logging_def)

lemma snd_lift [simp]: "snd (lift r) = r" and fst_lift [simp]: "fst (lift r) = []"
  by (simp_all add: lift_def)

lemma bind_logged_Inl [simp]: "snd m = Inl e \<Longrightarrow> bind_logged m f = (fst m, Inl e)"
  by (simp add: bind_logged_def)

lemma bind_logged_Inr [simp]:
  "snd m = Inr x \<Longrightarrow> bind_logged m f = (fst m @ fst (f x), snd (f x))"
  by (simp add: bind_logged_def)

section \<open>Properties of the loops\<close>

lemma disk_loop_result:
  assumes "\<forall>p\<in>set paths. \<forall>e. sys_disk_usage w p = Inl e \<longrightarrow> is_Exception e"
  shows "snd (disk_loop paths T w acc) =
           Inr (acc @ concat (map (\<lambda>p. case sys_disk_usage w p of
                                    Inr v \<Rightarrow> if v > T then [(p, v)] else []
                                  | Inl e \<Rightarrow> []) paths))"
  using assms
  by (induction paths arbitrary: acc) (auto split: sum.splits)

lemma disk_loop_log:
  assumes "\<forall>p\<in>set paths. \<forall>e. sys_disk_usage w p = Inl e \<longrightarrow> is_Exception e"
  shows "fst (disk_loop paths T w acc) =
           map (\<lambda>p. case sys_disk_usage w p of
                       Inr v \<Rightarrow> if v > T then (WARNING, HighDisk p v T) else (INFO, DiskUsage p v)
                     | Inl e \<Rightarrow> (INFO, ErrorDisk p e)) paths"
  using assms
  by (induction paths arbitrary: acc) (auto split: sum.splits)

lemma disk_loop_mono:
  "snd (disk_loop paths T w acc) = Inr alerts \<Longrightarrow>
     \<exists>new. alerts = acc @ new \<and>
        (\<forall>p v. (p, v) \<in> set new \<longleftrightarrow> p \<in> set paths \<and> sys_disk_usage w p = Inr v \<and> v > T)"
proof (induction paths arbitrary: acc)
  case Nil
  then show ?case by simp
next
  case (Cons path paths)
  show ?case
  proof (cases "sys_disk_usage w path")
    case (Inl e)
    with Cons.prems have ex: "is_Exception e" and r: "snd (disk_loop paths T w acc) = Inr alerts"
      by (auto split: if_splits)
    from Cons.IH[OF r] Inl show ?thesis by auto
  next
    case (Inr pct)
    show ?thesis
    proof (cases "pct > T")
      case True
      with Cons.prems Inr have "snd (disk_loop paths T w (acc @ [(path, pct)])) = Inr alerts"
        by simp
      from Cons.IH[OF this] obtain new where
        n: "alerts = (acc @ [(path, pct)]) @ new"
           "\<forall>p v. (p, v) \<in> set new \<longleftrightarrow> p \<in> set paths \<and> sys_disk_usage w p = Inr v \<and> v > T"
        by blast
      have "alerts = acc @ ((path, pct) # new)" using n(1) by simp
      moreover have "\<forall>p v. (p, v) \<in> set ((path, pct) # new) \<longleftrightarrow>
          p \<in> set (path # paths) \<and> sys_disk_usage w p = Inr v \<and> v > T"
        using n(2) Inr True by auto
      ultimately show ?thesis by blast
    next
      case False
      with Cons.prems Inr have "snd (disk_loop paths T w acc) = Inr alerts" by simp
      from Cons.IH[OF this] Inr False show ?thesis by auto
    qed
  qed
qed




lemma first_pass_keys:
  "first_pass hs acc = Inr procs \<Longrightarrow> k \<in> fst ` set procs \<Longrightarrow>
     k \<in> fst ` set acc \<or> (\<exists>h\<in>set hs. info_pid h = k \<and> (\<exists>v. init_cpu_percent h = Inr v))"
proof (induction hs arbitrary: acc)
  case Nil
  then show ?case by simp
next
  case (Cons h hs)
  show ?case
  proof (cases "init_cpu_percent h")
    case (Inl e)
    with Cons.prems have "first_pass hs acc = Inr procs"
      by (simp split: if_splits)
    from Cons.IH[OF this Cons.prems(2)] show ?thesis by auto
  next
    case (Inr v)
    with Cons.prems have
      "first_pass hs (AList.update (info_pid h) (name_or_empty (info_name h)) acc) = Inr procs"
      by simp
    from Cons.IH[OF this Cons.prems(2)]
    have "k \<in> {info_pid h} \<union> fst ` set acc \<or>
        (\<exists>h\<in>set hs. info_pid h = k \<and> (\<exists>v. init_cpu_percent h = Inr v))"
      by (simp only: dom_update)
    with Inr show ?thesis by auto
  qed
qed

lemma first_pass_without:
  assumes "\<forall>h\<in>set hs. info_pid h = pid \<longrightarrow> (\<exists>v. init_cpu_percent h = Inr v)"
  shows "first_pass (filter (\<lambda>h. info_pid h \<noteq> pid) hs) (AList.delete pid acc) =
           map_sum (\<lambda>e. e) (AList.delete pid) (first_pass hs acc)"
  using assms
proof (induction hs arbitrary: acc)
  case Nil
  then show ?case by simp
next
  case (Cons h hs)
  from Cons.prems have rest: "\<forall>h\<in>set hs. info_pid h = pid \<longrightarrow> (\<exists>v. init_cpu_percent h = Inr v)"
    by simp
  note IH = Cons.IH[OF rest]
  show ?case
  proof (cases "info_pid h = pid")
    case True
    with Cons.prems obtain v where v: "init_cpu_percent h = Inr v" by auto
    have "first_pass (filter (\<lambda>h. info_pid h \<noteq> pid) hs) (AList.delete pid acc) =
          first_pass (filter (\<lambda>h. info_pid h \<noteq> pid) hs)
            (AList.delete pid (AList.update pid (name_or_empty (info_name h)) acc))"
      by (simp add: delete_update_same)
    also have "\<dots> = map_sum (\<lambda>e. e) (AList.delete pid)
        (first_pass hs (AList.update pid (name_or_empty (info_name h)) acc))"
      by (rule IH)
    finally show ?thesis using True v by simp
  next
    case False
    show ?thesis
    proof (cases "init_cpu_percent h")
      case (Inl e)
      with False IH show ?thesis by simp
    next
      case (Inr v)
      have "AList.update (info_pid h) (name_or_empty (info_name h)) (AList.delete pid acc) =
            AList.delete pid (AList.update (info_pid h) (name_or_empty (info_name h)) acc)"
        using False by (simp add: delete_update)
      with False Inr IH show ?thesis by simp
    qed
  qed
qed


lemma second_pass_entries:
  "snd (second_pass T pr procs acc) = Inr high \<Longrightarrow>
     \<exists>new. high = acc @ new \<and> length new \<le> length procs \<and>
       (\<forall>d\<in>set new. \<exists>pid name cpu mem. d = high_entry pid name cpu mem \<and>
           (pid, name) \<in> set procs \<and> measure_process (pr pid) = Inr (Some cpu, mem) \<and> cpu > T)"
proof (induction procs arbitrary: acc)
  case Nil
  then show ?case by simp
next
  case (Cons a procs)
  obtain pid name where a: "a = (pid, name)" by (cases a)
  show ?case
  proof (cases "measure_process (pr pid)")
    case (Inl e)
    with Cons.prems a have "snd (second_pass T pr procs acc) = Inr high"
      by (simp split: if_splits)
    from Cons.IH[OF this] obtain new where
      n: "high = acc @ new" "length new \<le> length procs"
         "\<forall>d\<in>set new. \<exists>pid name cpu mem. d = high_entry pid name cpu mem \<and>
            (pid, name) \<in> set procs \<and> measure_process (pr pid) = Inr (Some cpu, mem) \<and> cpu > T"
      by blast
    have "length new \<le> length (a # procs)" using n(2) by simp
    moreover have "\<forall>d\<in>set new. \<exists>pid name cpu mem. d = high_entry pid name cpu mem \<and>
            (pid, name) \<in> set (a # procs) \<and>
            measure_process (pr pid) = Inr (Some cpu, mem) \<and> cpu > T"
      using n(3) by fastforce
    ultimately show ?thesis using n(1) by blast
  next
    case (Inr m)
    obtain cpu_opt mem where m: "m = (cpu_opt, mem)" by (cases m)
    show ?thesis
    proof (cases "\<exists>cpu. cpu_opt = Some cpu \<and> cpu > T")
      case True
      then obtain cpu where c: "cpu_opt = Some cpu" "cpu > T" by blast
      with Cons.prems a Inr m
      have "snd (second_pass T pr procs (acc @ [high_entry pid name cpu mem])) = Inr high"
        by simp
      from Cons.IH[OF this] obtain new where
        n: "high = (acc @ [high_entry pid name cpu mem]) @ new" "length new \<le> length procs"
           "\<forall>d\<in>set new. \<exists>pid name cpu mem. d = high_entry pid name cpu mem \<and>
              (pid, name) \<in> set procs \<and> measure_process (pr pid) = Inr (Some cpu, mem) \<and> cpu > T"
        by blast
      have "high = acc @ (high_entry pid name cpu mem # new)" using n(1) by simp
      moreover have "length (high_entry pid name cpu mem # new) \<le> length (a # procs)"
        using n(2) by simp
      moreover have "\<forall>d\<in>set (high_entry pid name cpu mem # new).
          \<exists>pid' name' cpu' mem'. d = high_entry pid' name' cpu' mem' \<and>
            (pid', name') \<in> set (a # procs) \<and>
            measure_process (pr pid') = Inr (Some cpu', mem') \<and> cpu' > T"
        using n(3) a Inr m c by fastforce
      ultimately show ?thesis by blast
    next
      case False
      with Cons.prems a Inr m have "snd (second_pass T pr procs acc) = Inr high"
        by (auto split: option.splits)
      from Cons.IH[OF this] obtain new where
        n: "high = acc @ new" "length new \<le> length procs"
           "\<forall>d\<in>set new. \<exists>pid name cpu mem. d = high_entry pid name cpu mem \<and>
              (pid, name) \<in> set procs \<and> measure_process (pr pid) = Inr (Some cpu, mem) \<and> cpu > T"
        by blast
      have "length new \<le> length (a # procs)" using n(2) by simp
      moreover have "\<forall>d\<in>set new. \<exists>pid name cpu mem. d = high_entry pid name cpu mem \<and>
              (pid, name) \<in> set (a # procs) \<and>
              measure_process (pr pid) = Inr (Some cpu, mem) \<and> cpu > T"
        using n(3) by fastforce
      ultimately show ?thesis using n(1) by blast
    qed
  qed
qed

lemma second_pass_keeps:
  "snd (second_pass T pr procs acc) = Inr high \<Longrightarrow> (pid, name) \<in> set procs \<Longrightarrow>
     measure_process (pr pid) = Inr (Some cpu, mem) \<Longrightarrow> cpu > T \<Longrightarrow>
     high_entry pid name cpu mem \<in> set high"
proof (induction procs arbitrary: acc)
  case Nil
  then show ?case by simp
next
  case (Cons a procs)
  obtain pid' name' where a: "a = (pid', name')" by (cases a)
  show ?case
  proof (cases "a = (pid, name)")
    case True
    with Cons.prems
    have "snd (second_pass T pr procs (acc @ [high_entry pid name cpu mem])) = Inr high"
      by simp
    from second_pass_entries[OF this] show ?thesis by auto
  next
    case False
    with Cons.prems have mem: "(pid, name) \<in> set procs" by simp
    from Cons.prems(1) a obtain acc' where "snd (second_pass T pr procs acc') = Inr high"
      by (auto split: sum.splits option.splits if_splits)
    from Cons.IH[OF this mem Cons.prems(3) Cons.prems(4)] show ?thesis .
  qed
qed

lemma second_pass_without:
  assumes "measure_process (pr pid) = Inl e" "soft_failure e"
  shows "second_pass T pr (AList.delete pid procs) acc = second_pass T pr procs acc"
  using assms
  by (induction procs arbitrary: acc)
     (auto simp: AList.delete_eq split: sum.splits option.splits)


lemma number_at_high_entry:
  "number_at ''cpu_percent'' (high_entry pid name cpu mem) = Inl (KeyError ''cpu_percent'')"
  by (simp add: number_at_def subscript_def high_entry_def)

lemma eval_keys_raises:
  "xs \<noteq> [] \<Longrightarrow> \<forall>x\<in>set xs. key x = Inl e \<Longrightarrow> eval_keys key xs = Inl e"
  by (cases xs) auto

lemma report_high_raises:
  assumes "high \<noteq> []"
    and "\<forall>d\<in>set high. \<exists>pid name cpu mem. d = high_entry pid name cpu mem"
  shows "report_high high = ([(WARNING, HighCpuDetected)], Inl (KeyError ''cpu_percent''))"
proof -
  have "\<forall>d\<in>set high. number_at ''cpu_percent'' d = Inl (KeyError ''cpu_percent'')"
    using assms(2) number_at_high_entry by fastforce
  with assms(1) have "eval_keys (number_at ''cpu_percent'') high = Inl (KeyError ''cpu_percent'')"
    by (rule eval_keys_raises)
  with assms(1) show ?thesis
    by (simp add: report_high_def sorted_reverse_def logging_def raise_def)
qed

lemma second_pass_returns:
  "\<forall>(pid, name)\<in>set procs. \<forall>e. measure_process (pr pid) = Inl e \<longrightarrow> is_Exception e \<Longrightarrow>
     \<exists>high. snd (second_pass T pr procs acc) = Inr high"
  by (induction procs arbitrary: acc) (auto split: sum.splits option.splits)

lemma disk_loop_ignores_processes:
  "disk_loop paths T (w\<lparr>sys_process_iter := hs\<rparr>) acc = disk_loop paths T w acc"
  by (induction paths arbitrary: acc) (auto split: sum.splits)

lemma check_running_processes_without:
  assumes "measure_process (sys_process w pid) = Inl e" and "soft_failure e"
    and "\<forall>h\<in>set (sys_process_iter w). info_pid h = pid \<longrightarrow> (\<exists>v. init_cpu_percent h = Inr v)"
  shows "check_running_processes T N si
           (w\<lparr>sys_process_iter := filter (\<lambda>h. info_pid h \<noteq> pid) (sys_process_iter w)\<rparr>) =
         check_running_processes T N si w"
proof -
  have fp: "first_pass (filter (\<lambda>h. info_pid h \<noteq> pid) (sys_process_iter w)) [] =
      map_sum (\<lambda>e. e) (AList.delete pid) (first_pass (sys_process_iter w) [])"
    using first_pass_without[OF assms(3), of "[]"] by simp
  have sp: "\<And>procs. second_pass T (sys_process w) (AList.delete pid procs) [] =
      second_pass T (sys_process w) procs []"
    using assms(1,2) by (rule second_pass_without)
  show ?thesis
  proof (cases "first_pass (sys_process_iter w) []")
    case (Inl x)
    with fp show ?thesis
      by (simp add: check_running_processes_def read_process_count_def)
  next
    case (Inr procs)
    with fp sp show ?thesis
      by (simp add: check_running_processes_def read_process_count_def)
  qed
qed

lemma cycle_without:
  assumes "measure_process (sys_process w pid) = Inl e" and "soft_failure e"
    and "\<forall>h\<in>set (sys_process_iter w). info_pid h = pid \<longrightarrow> (\<exists>v. init_cpu_percent h = Inr v)"
  shows "cycle args (w\<lparr>sys_process_iter := filter (\<lambda>h. info_pid h \<noteq> pid) (sys_process_iter w)\<rparr>) =
         cycle args w"
  by (simp add: cycle_def check_running_processes_without[OF assms]
      check_cpu_usage_def check_memory_usage_def check_disk_usage_def
      disk_loop_ignores_processes)







section \<open>Properties of the main loop\<close>

lemma main_loop_completed:
  "\<forall>w\<in>set ws. \<exists>a. snd (cycle args w) = Inr a \<Longrightarrow> snd (main_loop args ws) = None"
  by (induction ws) auto

lemma main_loop_append:
  "\<forall>w\<in>set ws1. \<exists>a. snd (cycle args w) = Inr a \<Longrightarrow>
     main_loop args (ws1 @ ws2) =
       (fst (main_loop args ws1) @ fst (main_loop args ws2), snd (main_loop args ws2))"
  by (induction ws1) auto

lemma main_loop_raised:
  "snd (main_loop args ws) = Some e \<Longrightarrow> \<exists>w\<in>set ws. snd (cycle args w) = Inl e"
  by (induction ws) (auto split: sum.splits)

lemma main_loop_stops:
  assumes "\<forall>v\<in>set before. \<exists>a. snd (cycle args v) = Inr a" and "snd (cycle args w) = Inl e"
  shows "main_loop args (before @ w # after) =
           (fst (main_loop args before) @ fst (cycle args w), Some e)"
  using assms by (simp add: main_loop_append)

text \<open>Single cycles on the sample hosts.\<close>

lemma cycle_calm:
  "cycle args0 calm =
     ([(INFO, NewCycle), (INFO, CpuUsage 50), (INFO, MemoryUsage 40), (INFO, DiskUsage ''/'' 90),
       (INFO, TotalProcesses 2), (INFO, NoHighCpu), (INFO, AllChecksOK), (INFO, CycleCompleted)],
      Inr False)"
  by (simp add: host_defs run_defs)

lemma cycle_faulty:
  "cycle args0 faulty =
     ([(INFO, NewCycle), (INFO, CpuUsage 50), (INFO, MemoryUsage 40), (INFO, DiskUsage ''/'' 90),
       (INFO, TotalProcesses 2)],
      Inl OSError)"
  by (simp add: host_defs run_defs)

lemma cycle_interrupted:
  "cycle args0 interrupted =
     ([(INFO, NewCycle), (INFO, CpuUsage 50), (INFO, MemoryUsage 40), (INFO, DiskUsage ''/'' 90),
       (INFO, TotalProcesses 2), (INFO, NoHighCpu), (INFO, AllChecksOK), (INFO, CycleCompleted)],
      Inl KeyboardInterrupt)"
  by (simp add: host_defs run_defs)

section \<open>The claims\<close>

subsection \<open>Ranking of the high-usage list\<close>

text \<open>
  What the report would do with the key that the entries really hold: the list comes out
  in descending order of \<open>cpu\<close>, and entries with the same value keep their order.
\<close>

lemma eval_keys_total:
  "\<forall>x\<in>set xs. key x = Inr (f x) \<Longrightarrow> eval_keys key xs = Inr (map (\<lambda>x. (f x, x)) xs)"
  by (induction xs) auto

lemma sorted_reverse_ranks:
  assumes "\<forall>x\<in>set xs. key x = Inr (f x)"
  shows "\<exists>ys. sorted_reverse key xs = Inr ys \<and> sorted (rev (map f ys)) \<and> mset ys = mset xs \<and>
           (\<forall>k. filter (\<lambda>y. f y = k) ys = filter (\<lambda>x. f x = k) xs)"
proof -
  let ?kxs = "map (\<lambda>x. (f x, x)) xs"
  let ?ys = "map snd (rev (sort_key fst (rev ?kxs)))"
  have r: "sorted_reverse key xs = Inr ?ys"
    using eval_keys_total[OF assms] by (simp add: sorted_reverse_def)
  have fs: "\<And>p. p \<in> set ?kxs \<Longrightarrow> f (snd p) = fst p" by auto
  have m: "map f ?ys = rev (map fst (sort_key fst (rev ?kxs)))"
  proof -
    have "\<forall>p\<in>set (sort_key fst (rev ?kxs)). f (snd p) = fst p"
      using fs by simp
    then have "map (f \<circ> snd) (sort_key fst (rev ?kxs)) = map fst (sort_key fst (rev ?kxs))"
      by (intro map_cong) auto
    then show ?thesis by (simp add: rev_map)
  qed
  have s: "sorted (rev (map f ?ys))"
    by (simp only: m rev_rev_ident sorted_sort_key)
  have p: "mset ?ys = mset xs"
  proof -
    have "mset ?ys = image_mset snd (mset (sort_key fst (rev ?kxs)))"
      by (simp only: mset_map mset_rev)
    also have "\<dots> = image_mset snd (mset ?kxs)"
      by (simp only: mset_sort mset_rev)
    also have "\<dots> = mset xs"
      by (simp add: image_mset.compositionality comp_def)
    finally show ?thesis .
  qed
  have st: "filter (\<lambda>y. f y = k) ?ys = filter (\<lambda>x. f x = k) xs" for k
  proof -
    have a: "filter (\<lambda>p. f (snd p) = k) zs = filter (\<lambda>p. fst p = k) zs"
      if "\<forall>p\<in>set zs. f (snd p) = fst p" for zs :: "(rat \<times> 'a) list"
      using that by (intro filter_cong) auto
    have "filter (\<lambda>y. f y = k) ?ys =
        map snd (rev (filter (\<lambda>p. f (snd p) = k) (sort_key fst (rev ?kxs))))"
      by (simp add: filter_map comp_def rev_filter)
    also have "\<dots> = map snd (rev (filter (\<lambda>p. fst p = k) (sort_key fst (rev ?kxs))))"
      using a[of "sort_key fst (rev ?kxs)"] fs by simp
    also have "\<dots> = map snd (rev (filter (\<lambda>p. fst p = k) (rev ?kxs)))"
      by (simp only: sort_key_stable)
    also have "\<dots> = map snd (filter (\<lambda>p. fst p = k) ?kxs)"
      by (simp add: rev_filter)
    also have "\<dots> = filter (\<lambda>x. f x = k) xs"
      by (simp add: filter_map comp_def)
    finally show ?thesis .
  qed
  from r s p st show ?thesis by blast
qed

lemma number_at_cpu: "number_at ''cpu'' (high_entry pid name cpu mem) = Inr cpu"
  by (simp add: number_at_def subscript_def high_entry_def)

text \<open>
  Claim C1. Whenever the high-usage list is not empty, \<open>check_running_processes\<close> is to
  report it sorted by CPU percent, highest first, equal values in their input order.
  The sort at line 162 reads the key \<open>cpu_percent\<close>, while line 152 stores the value
  under \<open>cpu\<close>: on the host \<open>busy\<close>, where process 7 uses 50 percent against a threshold
  of 20, the heading is logged and then \<open>KeyError\<close> leaves the function. No ranked line is
  written and nothing is returned.
\<close>

theorem busy_process_list_is_never_ranked:
  "check_running_processes 20 500 (1/2) busy =
     ([(INFO, TotalProcesses 2), (WARNING, HighCpuDetected)], Inl (KeyError ''cpu_percent''))"
  by (simp add: host_defs run_defs)

subsection \<open>Exceptions and the end of the loop\<close>

text \<open>
  Claim C2, as the code has it. The \<open>try\<close> statement encloses the whole \<open>while\<close> loop.
  When an exception that derives from \<open>Exception\<close> leaves a cycle, the handler logs it
  with \<open>logger.exception\<close> and \<open>main\<close> returns: the worlds after the failing one are
  never looked at, so no later cycle begins.
\<close>

theorem unexpected_exception_stops_monitor:
  assumes "\<forall>v\<in>set before. \<exists>a. snd (cycle args v) = Inr a"
    and "snd (cycle args w) = Inl e"
    and "is_Exception e"
  shows "main args (before @ w # after) =
           ((INFO, Starting) # fst (main_loop args before) @ fst (cycle args w)
              @ [(ERROR, Unhandled e)], Returned)"
proof -
  from assms(3) have "e \<noteq> KeyboardInterrupt" by auto
  with assms(3) main_loop_stops[OF assms(1,2)] show ?thesis
    by (simp add: main_def)
qed

theorem unexpected_exception_stops_monitor_witness:
  "main args0 [calm, faulty, calm] =
     ([(INFO, Starting),
       (INFO, NewCycle), (INFO, CpuUsage 50), (INFO, MemoryUsage 40), (INFO, DiskUsage ''/'' 90),
       (INFO, TotalProcesses 2), (INFO, NoHighCpu), (INFO, AllChecksOK), (INFO, CycleCompleted),
       (INFO, NewCycle), (INFO, CpuUsage 50), (INFO, MemoryUsage 40), (INFO, DiskUsage ''/'' 90),
       (INFO, TotalProcesses 2), (ERROR, Unhandled OSError)],
      Returned)"
proof -
  have h1: "\<forall>v\<in>set [calm]. \<exists>a. snd (cycle args0 v) = Inr a"
    by (auto simp: cycle_calm)
  have h2: "snd (cycle args0 faulty) = Inl OSError"
    by (simp add: cycle_faulty)
  have h3: "is_Exception OSError" by simp
  from unexpected_exception_stops_monitor[OF h1 h2 h3, of "[calm]"]
  show ?thesis by (simp add: cycle_calm cycle_faulty)
qed

text \<open>
  The claim as the specification states it, that the next cycle begins after a failed one,
  is false on the hosts \<open>faulty\<close> and \<open>calm\<close>: an \<open>OSError\<close> in the first pass of the first
  cycle ends the run, and the log holds one cycle only.
\<close>

theorem failed_cycle_ends_the_monitor:
  "main args0 [faulty, calm] =
     ([(INFO, Starting), (INFO, NewCycle), (INFO, CpuUsage 50), (INFO, MemoryUsage 40),
       (INFO, DiskUsage ''/'' 90), (INFO, TotalProcesses 2), (ERROR, Unhandled OSError)],
      Returned)"
  by (simp add: main_def cycle_calm cycle_faulty)

text \<open>
  Claim C8, as the code has it. As long as every cycle completes the loop keeps running.
  It ends exactly when an exception leaves a cycle: after \<open>KeyboardInterrupt\<close> the line
  \<open>Monitoring stopped by user.\<close> is logged at info level, after any other exception the
  line \<open>Unhandled exception in monitor\<close> is logged at error level. In both cases \<open>main\<close>
  returns and the script ends with status 0.
\<close>

theorem monitor_exits:
  "(( \<forall>w\<in>set ws. \<exists>a. snd (cycle args w) = Inr a) \<longrightarrow> snd (main args ws) = Running) \<and>
   (snd (main args ws) \<noteq> Running \<longrightarrow> (\<exists>w\<in>set ws. \<exists>e. snd (cycle args w) = Inl e)) \<and>
   ((\<forall>v\<in>set before. \<exists>a. snd (cycle args v) = Inr a) \<and> snd (cycle args w) = Inl KeyboardInterrupt \<longrightarrow>
      main args (before @ w # after) =
        ((INFO, Starting) # fst (main_loop args before) @ fst (cycle args w)
           @ [(INFO, StoppedByUser)], Returned)) \<and>
   ((\<forall>v\<in>set before. \<exists>a. snd (cycle args v) = Inr a) \<and> snd (cycle args w) = Inl e \<and>
      e \<noteq> KeyboardInterrupt \<longrightarrow>
      snd (main args (before @ w # after)) = Returned \<and>
      last (fst (main args (before @ w # after))) = (ERROR, Unhandled e)) \<and>
   exit_status Returned = Some 0"
proof (intro conjI impI)
  assume "\<forall>w\<in>set ws. \<exists>a. snd (cycle args w) = Inr a"
  then show "snd (main args ws) = Running"
    by (simp add: main_def main_loop_completed)
next
  assume "snd (main args ws) \<noteq> Running"
  then obtain e where "snd (main_loop args ws) = Some e"
    by (cases "snd (main_loop args ws)") (auto simp: main_def)
  from main_loop_raised[OF this] show "\<exists>w\<in>set ws. \<exists>e. snd (cycle args w) = Inl e"
    by blast
next
  assume "(\<forall>v\<in>set before. \<exists>a. snd (cycle args v) = Inr a) \<and>
    snd (cycle args w) = Inl KeyboardInterrupt"
  then have "main_loop args (before @ w # after) =
      (fst (main_loop args before) @ fst (cycle args w), Some KeyboardInterrupt)"
    by (simp add: main_loop_stops)
  then show "main args (before @ w # after) =
        ((INFO, Starting) # fst (main_loop args before) @ fst (cycle args w)
           @ [(INFO, StoppedByUser)], Returned)"
    by (simp add: main_def)
next
  assume a: "(\<forall>v\<in>set before. \<exists>a. snd (cycle args v) = Inr a) \<and> snd (cycle args w) = Inl e \<and>
      e \<noteq> KeyboardInterrupt"
  then have l: "main_loop args (before @ w # after) =
      (fst (main_loop args before) @ fst (cycle args w), Some e)"
    by (simp add: main_loop_stops)
  from a have "is_Exception e" by (cases e) auto
  with a l show "snd (main args (before @ w # after)) = Returned"
    by (simp add: main_def)
  from a l \<open>is_Exception e\<close>
  show "last (fst (main args (before @ w # after))) = (ERROR, Unhandled e)"
    by (simp add: main_def)
qed simp

theorem monitor_exits_witness:
  "snd (main args0 [calm, calm]) = Running \<and>
   main args0 [calm, interrupted, calm] =
     ([(INFO, Starting),
       (INFO, NewCycle), (INFO, CpuUsage 50), (INFO, MemoryUsage 40), (INFO, DiskUsage ''/'' 90),
       (INFO, TotalProcesses 2), (INFO, NoHighCpu), (INFO, AllChecksOK), (INFO, CycleCompleted),
       (INFO, NewCycle), (INFO, CpuUsage 50), (INFO, MemoryUsage 40), (INFO, DiskUsage ''/'' 90),
       (INFO, TotalProcesses 2), (INFO, NoHighCpu), (INFO, AllChecksOK), (INFO, CycleCompleted),
       (INFO, StoppedByUser)],
      Returned) \<and>
   snd (main args0 [calm, faulty, calm]) = Returned \<and>
   last (fst (main args0 [calm, faulty, calm])) = (ERROR, Unhandled OSError) \<and>
   exit_status Returned = Some 0"
proof -
  have h1: "\<forall>w\<in>set [calm, calm]. \<exists>a. snd (cycle args0 w) = Inr a"
    by (auto simp: cycle_calm)
  have h2: "\<forall>v\<in>set [calm]. \<exists>a. snd (cycle args0 v) = Inr a"
    by (auto simp: cycle_calm)
  have h3: "snd (cycle args0 interrupted) = Inl KeyboardInterrupt"
    by (simp add: cycle_interrupted)
  have h4: "snd (cycle args0 faulty) = Inl OSError \<and> OSError \<noteq> KeyboardInterrupt"
    by (simp add: cycle_faulty)
  from h1 h2 h3 h4
    monitor_exits[where ws = "[calm, calm]" and args = args0 and before = "[calm]"
      and w = interrupted and after = "[calm]"]
    monitor_exits[where args = args0 and before = "[calm]" and w = faulty and e = OSError
      and after = "[calm]"]
  show ?thesis by (simp add: cycle_calm cycle_faulty cycle_interrupted)
qed

text \<open>
  The claim as the specification states it, that only a cancellation signal ends the loop,
  is false on the hosts \<open>calm\<close> and \<open>busy\<close>: no \<open>KeyboardInterrupt\<close> occurs, and the
  \<open>KeyError\<close> of the second cycle ends the run.
\<close>

theorem monitor_exits_without_cancellation:
  "main args0 [calm, busy] =
     ([(INFO, Starting),
       (INFO, NewCycle), (INFO, CpuUsage 50), (INFO, MemoryUsage 40), (INFO, DiskUsage ''/'' 90),
       (INFO, TotalProcesses 2), (INFO, NoHighCpu), (INFO, AllChecksOK), (INFO, CycleCompleted),
       (INFO, NewCycle), (INFO, CpuUsage 50), (INFO, MemoryUsage 40), (INFO, DiskUsage ''/'' 90),
       (INFO, TotalProcesses 2), (WARNING, HighCpuDetected),
       (ERROR, Unhandled (KeyError ''cpu_percent''))],
      Returned)"
proof -
  have "cycle args0 busy =
     ([(INFO, NewCycle), (INFO, CpuUsage 50), (INFO, MemoryUsage 40), (INFO, DiskUsage ''/'' 90),
       (INFO, TotalProcesses 2), (WARNING, HighCpuDetected)],
      Inl (KeyError ''cpu_percent''))"
    by (simp add: host_defs run_defs)
  then show ?thesis by (simp add: main_def cycle_calm)
qed

subsection \<open>The alert decision of a cycle\<close>

text \<open>
  A cycle that completes has decided as line 201 says: \<open>cycle_alerts\<close> is the disjunction
  of the five alerts. A cycle with a non-empty high-usage list does not complete.
\<close>

lemma bind_logged_InrD:
  "snd (bind_logged m f) = Inr y \<Longrightarrow> \<exists>x. snd m = Inr x \<and> snd (f x) = Inr y"
  by (cases "snd m") (auto simp: bind_logged_def)

lemma check_running_processes_returns_empty:
  assumes "snd (check_running_processes T N si w) = Inr (c, high, alerts)"
  shows "high = [] \<and> snd (read_process_count w) = Inr c \<and> snd (count_alerts c N) = Inr alerts"
proof -
  from assms obtain c' where c': "snd (read_process_count w) = Inr c'"
    and 1: "snd (bind_logged (count_alerts c' N) (\<lambda>alerts.
              bind_logged (lift (first_pass (sys_process_iter w) [])) (\<lambda>procs.
              bind_logged (lift (sys_sleep_sample w si)) (\<lambda>_.
              bind_logged (second_pass T (sys_process w) procs []) (\<lambda>high_cpu_processes.
              bind_logged (report_high high_cpu_processes) (\<lambda>_.
                ret (c', high_cpu_processes, alerts))))))) = Inr (c, high, alerts)"
    unfolding check_running_processes_def by (blast dest: bind_logged_InrD)
  from bind_logged_InrD[OF 1] obtain a' where a': "snd (count_alerts c' N) = Inr a'"
    and 2: "snd (bind_logged (lift (first_pass (sys_process_iter w) [])) (\<lambda>procs.
              bind_logged (lift (sys_sleep_sample w si)) (\<lambda>_.
              bind_logged (second_pass T (sys_process w) procs []) (\<lambda>high_cpu_processes.
              bind_logged (report_high high_cpu_processes) (\<lambda>_.
                ret (c', high_cpu_processes, a')))))) = Inr (c, high, alerts)"
    by blast
  from bind_logged_InrD[OF 2] obtain procs where
    3: "snd (bind_logged (lift (sys_sleep_sample w si)) (\<lambda>_.
              bind_logged (second_pass T (sys_process w) procs []) (\<lambda>high_cpu_processes.
              bind_logged (report_high high_cpu_processes) (\<lambda>_.
                ret (c', high_cpu_processes, a'))))) = Inr (c, high, alerts)"
    by blast
  from bind_logged_InrD[OF 3] have
    4: "snd (bind_logged (second_pass T (sys_process w) procs []) (\<lambda>high_cpu_processes.
              bind_logged (report_high high_cpu_processes) (\<lambda>_.
                ret (c', high_cpu_processes, a')))) = Inr (c, high, alerts)"
    by blast
  from bind_logged_InrD[OF 4] obtain h where h: "snd (second_pass T (sys_process w) procs []) = Inr h"
    and 5: "snd (bind_logged (report_high h) (\<lambda>_. ret (c', h, a'))) = Inr (c, high, alerts)"
    by blast
  from bind_logged_InrD[OF 5] obtain u where u: "snd (report_high h) = Inr u"
    and 6: "snd (ret (c', h, a') :: (nat option \<times> entry list \<times> (string \<times> nat) list) logged)
              = Inr (c, high, alerts)"
    by blast
  from 6 have eq: "c' = c" "h = high" "a' = alerts" by simp_all
  have "high = []"
  proof (rule ccontr)
    assume ne: "high \<noteq> []"
    from second_pass_entries[OF h] eq
    have "\<forall>d\<in>set high. \<exists>pid name cpu mem. d = high_entry pid name cpu mem \<and>
        (pid, name) \<in> set procs \<and>
        measure_process (sys_process w pid) = Inr (Some cpu, mem) \<and> cpu > T"
      by simp
    then have "\<forall>d\<in>set high. \<exists>pid name cpu mem. d = high_entry pid name cpu mem"
      by blast
    from report_high_raises[OF ne this] u eq show False by simp
  qed
  with c' a' eq show ?thesis by simp
qed

lemma cycle_alert_when_completed:
  assumes "snd (cycle args w) = Inr a"
  shows "a \<longleftrightarrow>
     (\<exists>v. sys_cpu_percent w (sample_interval args) = Inr v \<and> v > cpu_threshold args) \<or>
     (\<exists>v. sys_virtual_memory w = Inr v \<and> v > memory_threshold args) \<or>
     (\<exists>p\<in>set (disk_paths args). \<exists>v. sys_disk_usage w p = Inr v \<and> v > disk_threshold args) \<or>
     (\<exists>ps. sys_pids w = Inr ps \<and> int (length ps) > process_count_threshold args)"
proof -
  let ?rest3 = "\<lambda>cpu_alert mem_alert disk_alerts.
      bind_logged (check_running_processes (process_cpu_threshold args)
                     (process_count_threshold args) (sample_interval args) w)
        (\<lambda>(_, high_cpu_procs, proc_alerts).
      let cycle_alerts =
            (cpu_alert \<or> mem_alert \<or> disk_alerts \<noteq> [] \<or> high_cpu_procs \<noteq> [] \<or> proc_alerts \<noteq> [])
      in logging (if cycle_alerts then (WARNING, AlertsRaised) else (INFO, AllChecksOK))
        (logging (INFO, CycleCompleted)
        (bind_logged (lift (sys_sleep_main w (interval args))) (\<lambda>_. ret cycle_alerts))))"
  let ?rest2 = "\<lambda>cpu_alert mem_alert.
      bind_logged (check_disk_usage (disk_paths args) (disk_threshold args) w)
        (\<lambda>disk_alerts. ?rest3 cpu_alert mem_alert disk_alerts)"
  let ?rest1 = "\<lambda>cpu_alert.
      bind_logged (check_memory_usage (memory_threshold args) w)
        (\<lambda>(_, mem_alert). ?rest2 cpu_alert mem_alert)"
  from assms have 0: "snd (bind_logged
      (check_cpu_usage (cpu_threshold args) (sample_interval args) w)
      (\<lambda>(_, cpu_alert). ?rest1 cpu_alert)) = Inr a"
    by (simp add: cycle_def)
  from bind_logged_InrD[OF 0] obtain cv cpu_alert where
    cpu: "snd (check_cpu_usage (cpu_threshold args) (sample_interval args) w) = Inr (cv, cpu_alert)"
    and 1: "snd (?rest1 cpu_alert) = Inr a"
    by auto
  from bind_logged_InrD[OF 1] obtain mv mem_alert where
    mem: "snd (check_memory_usage (memory_threshold args) w) = Inr (mv, mem_alert)"
    and 2: "snd (?rest2 cpu_alert mem_alert) = Inr a"
    by auto
  from bind_logged_InrD[OF 2] obtain disk_alerts where
    disk: "snd (check_disk_usage (disk_paths args) (disk_threshold args) w) = Inr disk_alerts"
    and 3: "snd (?rest3 cpu_alert mem_alert disk_alerts) = Inr a"
    by auto
  from bind_logged_InrD[OF 3] obtain c high proc_alerts where
    procs: "snd (check_running_processes (process_cpu_threshold args)
              (process_count_threshold args) (sample_interval args) w) = Inr (c, high, proc_alerts)"
    and 4: "snd (bind_logged (lift (sys_sleep_main w (interval args)))
              (\<lambda>_. ret (cpu_alert \<or> mem_alert \<or> disk_alerts \<noteq> [] \<or> high \<noteq> [] \<or> proc_alerts \<noteq> [])))
            = Inr a"
    by (auto simp: Let_def)
  from bind_logged_InrD[OF 4]
  have a: "a \<longleftrightarrow> cpu_alert \<or> mem_alert \<or> disk_alerts \<noteq> [] \<or> high \<noteq> [] \<or> proc_alerts \<noteq> []"
    by auto
  from check_running_processes_returns_empty[OF procs]
  have high: "high = []" and cnt: "snd (read_process_count w) = Inr c"
    and al: "snd (count_alerts c (process_count_threshold args)) = Inr proc_alerts"
    by simp_all
  have A: "cpu_alert \<longleftrightarrow>
      (\<exists>v. sys_cpu_percent w (sample_interval args) = Inr v \<and> v > cpu_threshold args)"
    using cpu by (auto simp: check_cpu_usage_def split: sum.splits if_splits)
  have B: "mem_alert \<longleftrightarrow> (\<exists>v. sys_virtual_memory w = Inr v \<and> v > memory_threshold args)"
    using mem by (auto simp: check_memory_usage_def split: sum.splits if_splits)
  have C: "disk_alerts \<noteq> [] \<longleftrightarrow>
      (\<exists>p\<in>set (disk_paths args). \<exists>v. sys_disk_usage w p = Inr v \<and> v > disk_threshold args)"
  proof -
    from disk have "snd (disk_loop (disk_paths args) (disk_threshold args) w []) = Inr disk_alerts"
      by (simp add: check_disk_usage_def)
    from disk_loop_mono[OF this]
    have m: "\<forall>p v. (p, v) \<in> set disk_alerts \<longleftrightarrow>
        p \<in> set (disk_paths args) \<and> sys_disk_usage w p = Inr v \<and> v > disk_threshold args"
      by auto
    have "disk_alerts \<noteq> [] \<longleftrightarrow> (\<exists>p v. (p, v) \<in> set disk_alerts)"
      by (cases disk_alerts) auto
    with m show ?thesis by blast
  qed
  have D: "proc_alerts \<noteq> [] \<longleftrightarrow>
      (\<exists>ps. sys_pids w = Inr ps \<and> int (length ps) > process_count_threshold args)"
    using cnt al
    by (auto simp: read_process_count_def count_alerts_def
        split: sum.splits if_splits option.splits)
  from a high A B C D show ?thesis by simp
qed

text \<open>
  Claim C3. \<open>cycle_alert\<close> is to be true exactly when one of the five alerts fired, a
  non-empty high-usage list among them. On the host \<open>busy\<close> the list is not empty, and
  the cycle ends inside \<open>check_running_processes\<close> with the \<open>KeyError\<close> of line 162:
  line 201 is not reached, neither \<open>One or more alerts raised this cycle.\<close> nor
  \<open>Cycle completed\<close> is logged, and no value of \<open>cycle_alerts\<close> comes back.
\<close>

theorem busy_cycle_reaches_no_alert_decision:
  "cycle args0 busy =
     ([(INFO, NewCycle), (INFO, CpuUsage 50), (INFO, MemoryUsage 40), (INFO, DiskUsage ''/'' 90),
       (INFO, TotalProcesses 2), (WARNING, HighCpuDetected)],
      Inl (KeyError ''cpu_percent''))"
  by (simp add: host_defs run_defs)

theorem busy_cycle_reaches_no_alert_decision_witness:
  "snd (cycle args0 busy) = Inl (KeyError ''cpu_percent'') \<and>
   (WARNING, AlertsRaised) \<notin> set (fst (cycle args0 busy)) \<and>
   (INFO, CycleCompleted) \<notin> set (fst (cycle args0 busy))"
  using busy_cycle_reaches_no_alert_decision by simp

subsection \<open>Thresholds\<close>

text \<open>
  Claim C4. In each of the five checks the alert is raised exactly when the value read is
  strictly greater than its threshold: the flag of the processor and memory checks, the
  membership of a path in the disk alerts, the \<open>Process Count\<close> alert, and the
  membership of a measured process in \<open>high_cpu_processes\<close> after the second pass.
\<close>

theorem alerts_use_strict_greater_than:
  "(sys_cpu_percent w si = Inr V \<longrightarrow> snd (check_cpu_usage T si w) = Inr (Some V, V > T)) \<and>
   (sys_virtual_memory w = Inr V \<longrightarrow> snd (check_memory_usage T w) = Inr (Some V, V > T)) \<and>
   (path \<in> set paths \<and> sys_disk_usage w path = Inr V \<and>
      snd (check_disk_usage paths T w) = Inr alerts \<longrightarrow>
        ((path, V) \<in> set alerts \<longleftrightarrow> V > T)) \<and>
   snd (count_alerts (Some n) N) = Inr (if int n > N then [(''Process Count'', n)] else []) \<and>
   ((pid, name) \<in> set procs \<and> measure_process (process pid) = Inr (Some V, M) \<and>
      snd (second_pass T process procs []) = Inr high \<longrightarrow>
        (high_entry pid name V M \<in> set high \<longleftrightarrow> V > T))"
proof (intro conjI impI)
  assume "sys_cpu_percent w si = Inr V"
  then show "snd (check_cpu_usage T si w) = Inr (Some V, V > T)"
    by (simp add: check_cpu_usage_def)
next
  assume "sys_virtual_memory w = Inr V"
  then show "snd (check_memory_usage T w) = Inr (Some V, V > T)"
    by (simp add: check_memory_usage_def)
next
  assume a: "path \<in> set paths \<and> sys_disk_usage w path = Inr V \<and>
      snd (check_disk_usage paths T w) = Inr alerts"
  then have "snd (disk_loop paths T w []) = Inr alerts"
    by (simp add: check_disk_usage_def)
  from disk_loop_mono[OF this] a show "(path, V) \<in> set alerts \<longleftrightarrow> V > T"
    by auto
next
  show "snd (count_alerts (Some n) N) = Inr (if int n > N then [(''Process Count'', n)] else [])"
    by (simp add: count_alerts_def)
next
  assume a: "(pid, name) \<in> set procs \<and> measure_process (process pid) = Inr (Some V, M) \<and>
      snd (second_pass T process procs []) = Inr high"
  show "high_entry pid name V M \<in> set high \<longleftrightarrow> V > T"
  proof
    assume "high_entry pid name V M \<in> set high"
    with second_pass_entries[of T process procs "[]" high] a
    obtain pid' name' cpu mem where
      e: "high_entry pid name V M = high_entry pid' name' cpu mem"
         "measure_process (process pid') = Inr (Some cpu, mem)" "cpu > T"
      by auto
    from e(1) have "pid' = pid" "cpu = V" by (simp_all add: high_entry_def)
    with e(3) show "V > T" by simp
  next
    assume "V > T"
    with a second_pass_keeps[of T process procs "[]" high pid name V M]
    show "high_entry pid name V M \<in> set high" by simp
  qed
qed

theorem alerts_use_strict_greater_than_witness:
  "snd (check_cpu_usage 50 (1/2) level) = Inr (Some 50, False) \<and>
   snd (check_cpu_usage 49 (1/2) level) = Inr (Some 50, True) \<and>
   snd (check_memory_usage 50 level) = Inr (Some 50, False) \<and>
   snd (check_memory_usage 49 level) = Inr (Some 50, True) \<and>
   snd (check_disk_usage [''/''] 50 level) = Inr [] \<and>
   snd (check_disk_usage [''/''] 49 level) = Inr [(''/'', 50)] \<and>
   snd (count_alerts (Some 500) 500) = Inr [] \<and>
   snd (count_alerts (Some 501) 500) = Inr [(''Process Count'', 501)] \<and>
   snd (second_pass 50 (sys_process level) [(7, ''worker'')] []) = Inr [] \<and>
   snd (second_pass 49 (sys_process level) [(7, ''worker'')] []) =
     Inr [high_entry 7 ''worker'' 50 (3/2)]"
proof -
  have h: "sys_cpu_percent level (1/2) = Inr 50" "sys_virtual_memory level = Inr 50"
    "''/'' \<in> set [''/'']" "sys_disk_usage level ''/'' = Inr 50"
    "(7, ''worker'') \<in> set [(7::nat, ''worker'')]"
    "measure_process (sys_process level 7) = Inr (Some 50, 3/2)"
    by (simp_all add: host_defs measure_process_def)
  have d: "snd (check_disk_usage [''/''] 50 level) = Inr []"
    "snd (check_disk_usage [''/''] 49 level) = Inr [(''/'', 50)]"
    by (simp_all add: host_defs run_defs)
  have s: "snd (second_pass 50 (sys_process level) [(7, ''worker'')] []) = Inr []"
    "snd (second_pass 49 (sys_process level) [(7, ''worker'')] []) =
       Inr [high_entry 7 ''worker'' 50 (3/2)]"
    by (simp_all add: host_defs measure_process_def ret_def)
  from h d s
    alerts_use_strict_greater_than[where w = level and si = "1/2" and V = 50 and T = 50
      and path = "''/''" and paths = "[''/'']" and alerts = "[]" and n = 500 and N = 500
      and pid = 7 and name = "''worker''" and procs = "[(7, ''worker'')]"
      and process = "sys_process level" and M = "3/2" and high = "[]"]
    alerts_use_strict_greater_than[where w = level and si = "1/2" and V = 50 and T = 49
      and path = "''/''" and paths = "[''/'']" and alerts = "[(''/'', 50)]" and n = 501
      and N = 500 and pid = 7 and name = "''worker''" and procs = "[(7, ''worker'')]"
      and process = "sys_process level" and M = "3/2"
      and high = "[high_entry 7 ''worker'' 50 (3/2)]"]
  show ?thesis by simp
qed

subsection \<open>Processes that come and go\<close>

text \<open>
  Claim C5. After the second pass the list holds entries only for process ids whose
  counter was initialised in the first pass and whose three queries of the second pass
  succeeded, so it is no longer than the registry. The second pass returns whatever
  \<open>Exception\<close> the queries raise. A process of the first pass that is gone, a zombie or
  out of reach in the second pass changes nothing: the whole cycle, log lines included,
  is the cycle of a host on which that process was never listed.
\<close>

theorem scanner_skips_vanished_processes:
  "(first_pass (sys_process_iter w) [] = Inr procs \<and>
      snd (second_pass T (sys_process w) procs []) = Inr high \<longrightarrow>
        length high \<le> length procs \<and>
        (\<forall>d\<in>set high. \<exists>pid name cpu mem. d = high_entry pid name cpu mem \<and>
            (\<exists>h\<in>set (sys_process_iter w). info_pid h = pid \<and> (\<exists>v. init_cpu_percent h = Inr v)) \<and>
            measure_process (sys_process w pid) = Inr (Some cpu, mem))) \<and>
   ((\<forall>(pid, name)\<in>set procs. \<forall>x. measure_process (sys_process w pid) = Inl x \<longrightarrow> is_Exception x) \<longrightarrow>
      (\<exists>high. snd (second_pass T (sys_process w) procs []) = Inr high)) \<and>
   (soft_failure e \<and> measure_process (sys_process w gone) = Inl e \<and>
      (\<forall>h\<in>set (sys_process_iter w). info_pid h = gone \<longrightarrow> (\<exists>v. init_cpu_percent h = Inr v)) \<longrightarrow>
        cycle args w =
          cycle args (w\<lparr>sys_process_iter := filter (\<lambda>h. info_pid h \<noteq> gone) (sys_process_iter w)\<rparr>))"
proof (intro conjI impI)
  assume a: "first_pass (sys_process_iter w) [] = Inr procs \<and>
      snd (second_pass T (sys_process w) procs []) = Inr high"
  from second_pass_entries[of T "sys_process w" procs "[]" high] a
  have len: "length high \<le> length procs"
    and ent: "\<forall>d\<in>set high. \<exists>pid name cpu mem. d = high_entry pid name cpu mem \<and>
           (pid, name) \<in> set procs \<and>
           measure_process (sys_process w pid) = Inr (Some cpu, mem) \<and> cpu > T"
    by auto
  show "length high \<le> length procs" by (rule len)
  show "\<forall>d\<in>set high. \<exists>pid name cpu mem. d = high_entry pid name cpu mem \<and>
            (\<exists>h\<in>set (sys_process_iter w). info_pid h = pid \<and> (\<exists>v. init_cpu_percent h = Inr v)) \<and>
            measure_process (sys_process w pid) = Inr (Some cpu, mem)"
  proof
    fix d assume "d \<in> set high"
    with ent obtain pid name cpu mem where
      d: "d = high_entry pid name cpu mem" "(pid, name) \<in> set procs"
         "measure_process (sys_process w pid) = Inr (Some cpu, mem)"
      by blast
    from d(2) have "pid \<in> fst ` set procs" by force
    with first_pass_keys[of "sys_process_iter w" "[]" procs pid] a
    have "\<exists>h\<in>set (sys_process_iter w). info_pid h = pid \<and> (\<exists>v. init_cpu_percent h = Inr v)"
      by simp
    with d show "\<exists>pid name cpu mem. d = high_entry pid name cpu mem \<and>
            (\<exists>h\<in>set (sys_process_iter w). info_pid h = pid \<and> (\<exists>v. init_cpu_percent h = Inr v)) \<and>
            measure_process (sys_process w pid) = Inr (Some cpu, mem)"
      by blast
  qed
next
  assume "\<forall>(pid, name)\<in>set procs. \<forall>x. measure_process (sys_process w pid) = Inl x \<longrightarrow> is_Exception x"
  then show "\<exists>high. snd (second_pass T (sys_process w) procs []) = Inr high"
    by (rule second_pass_returns)
next
  assume "soft_failure e \<and> measure_process (sys_process w gone) = Inl e \<and>
      (\<forall>h\<in>set (sys_process_iter w). info_pid h = gone \<longrightarrow> (\<exists>v. init_cpu_percent h = Inr v))"
  then show "cycle args w =
          cycle args (w\<lparr>sys_process_iter := filter (\<lambda>h. info_pid h \<noteq> gone) (sys_process_iter w)\<rparr>)"
    by (simp add: cycle_without)
qed

theorem scanner_skips_vanished_processes_witness:
  "first_pass (sys_process_iter mixed) [] = Inr [(1, ''init''), (7, ''worker''), (9, ''stress'')] \<and>
   snd (second_pass 20 (sys_process mixed) [(1, ''init''), (7, ''worker''), (9, ''stress'')] []) =
     Inr [high_entry 9 ''stress'' 50 (3/2)] \<and>
   measure_process (sys_process vanishing 7) = Inl NoSuchProcess \<and>
   cycle args0 vanishing = cycle args0 without_seven \<and>
   cycle args0 vanishing =
     ([(INFO, NewCycle), (INFO, CpuUsage 50), (INFO, MemoryUsage 40), (INFO, DiskUsage ''/'' 90),
       (INFO, TotalProcesses 2), (INFO, NoHighCpu), (INFO, AllChecksOK), (INFO, CycleCompleted)],
      Inr False)"
proof -
  have m1: "first_pass (sys_process_iter mixed) [] =
      Inr [(1, ''init''), (7, ''worker''), (9, ''stress'')]"
    by (simp add: host_defs name_or_empty_def)
  have m2: "snd (second_pass 20 (sys_process mixed)
      [(1, ''init''), (7, ''worker''), (9, ''stress'')] []) = Inr [high_entry 9 ''stress'' 50 (3/2)]"
    by (simp add: host_defs measure_process_def ret_def)
  have m3: "\<forall>(pid, name)\<in>set [(1::nat, ''init''), (7, ''worker''), (9, ''stress'')].
      \<forall>x. measure_process (sys_process mixed pid) = Inl x \<longrightarrow> is_Exception x"
    by (simp add: host_defs measure_process_def)
  have v1: "soft_failure NoSuchProcess" by simp
  have v2: "measure_process (sys_process vanishing 7) = Inl NoSuchProcess"
    by (simp add: host_defs measure_process_def)
  have v3: "\<forall>h\<in>set (sys_process_iter vanishing). info_pid h = 7 \<longrightarrow> (\<exists>v. init_cpu_percent h = Inr v)"
    by (simp add: host_defs)
  have v4: "vanishing\<lparr>sys_process_iter := filter (\<lambda>h. info_pid h \<noteq> 7) (sys_process_iter vanishing)\<rparr>
      = without_seven"
    by (simp add: host_defs)
  have c: "cycle args0 vanishing =
     ([(INFO, NewCycle), (INFO, CpuUsage 50), (INFO, MemoryUsage 40), (INFO, DiskUsage ''/'' 90),
       (INFO, TotalProcesses 2), (INFO, NoHighCpu), (INFO, AllChecksOK), (INFO, CycleCompleted)],
      Inr False)"
    by (simp add: host_defs run_defs)
  from m1 m2 m3 v1 v2 v3
    scanner_skips_vanished_processes[where w = mixed and T = 20
      and procs = "[(1, ''init''), (7, ''worker''), (9, ''stress'')]"
      and high = "[high_entry 9 ''stress'' 50 (3/2)]"]
    scanner_skips_vanished_processes[where w = vanishing and gone = 7 and e = NoSuchProcess
      and args = args0]
  have "cycle args0 vanishing =
      cycle args0 (vanishing\<lparr>sys_process_iter :=
        filter (\<lambda>h. info_pid h \<noteq> 7) (sys_process_iter vanishing)\<rparr>)"
    by blast
  with v4 have "cycle args0 vanishing = cycle args0 without_seven" by simp
  with m1 m2 v2 c show ?thesis by simp
qed

subsection \<open>Read failures\<close>

text \<open>
  Claim C6. When the read of a path raises an \<open>Exception\<close>, the loop goes on to the
  remaining paths: one log line is written for every configured path, in order, and the
  alerts returned are exactly the paths that were read and exceed the threshold.
\<close>

theorem disk_failures_are_isolated:
  assumes "\<forall>p\<in>set paths. \<forall>e. sys_disk_usage w p = Inl e \<longrightarrow> is_Exception e"
  shows "snd (check_disk_usage paths T w) =
           Inr (concat (map (\<lambda>p. case sys_disk_usage w p of
                                    Inr v \<Rightarrow> if v > T then [(p, v)] else []
                                  | Inl e \<Rightarrow> []) paths)) \<and>
         fst (check_disk_usage paths T w) =
           map (\<lambda>p. case sys_disk_usage w p of
                       Inr v \<Rightarrow> if v > T then (WARNING, HighDisk p v T) else (INFO, DiskUsage p v)
                     | Inl e \<Rightarrow> (INFO, ErrorDisk p e)) paths \<and>
         (\<forall>alerts p v. snd (check_disk_usage paths T w) = Inr alerts \<longrightarrow>
            ((p, v) \<in> set alerts \<longleftrightarrow> p \<in> set paths \<and> sys_disk_usage w p = Inr v \<and> v > T))"
proof (intro conjI allI impI)
  show "snd (check_disk_usage paths T w) =
           Inr (concat (map (\<lambda>p. case sys_disk_usage w p of
                                    Inr v \<Rightarrow> if v > T then [(p, v)] else []
                                  | Inl e \<Rightarrow> []) paths))"
    using disk_loop_result[OF assms, of T "[]"] by (simp add: check_disk_usage_def)
next
  show "fst (check_disk_usage paths T w) =
           map (\<lambda>p. case sys_disk_usage w p of
                       Inr v \<Rightarrow> if v > T then (WARNING, HighDisk p v T) else (INFO, DiskUsage p v)
                     | Inl e \<Rightarrow> (INFO, ErrorDisk p e)) paths"
    using disk_loop_log[OF assms, of T "[]"] by (simp add: check_disk_usage_def)
next
  fix alerts p v
  assume "snd (check_disk_usage paths T w) = Inr alerts"
  then have "snd (disk_loop paths T w []) = Inr alerts"
    by (simp add: check_disk_usage_def)
  from disk_loop_mono[OF this]
  show "(p, v) \<in> set alerts \<longleftrightarrow> p \<in> set paths \<and> sys_disk_usage w p = Inr v \<and> v > T"
    by auto
qed

theorem disk_failures_are_isolated_witness:
  "check_disk_usage [''/'', ''/nope'', ''/data''] 90 calm =
     ([(INFO, DiskUsage ''/'' 90), (INFO, ErrorDisk ''/nope'' OSError),
       (WARNING, HighDisk ''/data'' 95 90)],
      Inr [(''/data'', 95)])"
proof -
  have h: "\<forall>p\<in>set [''/'', ''/nope'', ''/data'']. \<forall>e. sys_disk_usage calm p = Inl e \<longrightarrow> is_Exception e"
    by (simp add: host_defs)
  from disk_failures_are_isolated[OF h, of 90]
  show ?thesis by (simp add: host_defs prod_eq_iff)
qed

text \<open>
  A failed read of the processor or memory figure is logged at error level and gives an
  absent value with a false flag. A failed read of a disk path gives no alert for it.
\<close>

lemma cpu_read_failure:
  "sys_cpu_percent w si = Inl e \<Longrightarrow> is_Exception e \<Longrightarrow>
     check_cpu_usage T si w = ([(ERROR, FailedCpu e)], Inr (None, False))"
  by (simp add: check_cpu_usage_def logging_def ret_def)

lemma memory_read_failure:
  "sys_virtual_memory w = Inl e \<Longrightarrow> is_Exception e \<Longrightarrow>
     check_memory_usage T w = ([(ERROR, FailedMemory e)], Inr (None, False))"
  by (simp add: check_memory_usage_def logging_def ret_def)

lemma disk_read_failure:
  "sys_disk_usage w path = Inl e \<Longrightarrow> is_Exception e \<Longrightarrow>
     check_disk_usage [path] T w = ([(INFO, ErrorDisk path e)], Inr [])"
  by (simp add: check_disk_usage_def logging_def ret_def)

text \<open>
  Claim C7. Every processor, memory or disk read failure is to be logged at error level.
  The processor and memory checks do so; \<open>check_disk_usage\<close> writes its failure with
  \<open>logger.info\<close> (line 95). On the host \<open>calm\<close> the path \<open>/nope\<close> cannot be read, and the
  only line written for it has level \<open>INFO\<close>.
\<close>

theorem disk_read_failure_is_logged_at_info:
  "check_disk_usage [''/nope''] 90 calm = ([(INFO, ErrorDisk ''/nope'' OSError)], Inr [])"
  by (simp add: host_defs run_defs)



subsection \<open>The uptime check\<close>

text \<open>
  Claim C10, as the code has it. \<open>check_app_status\<close> returns \<open>UP\<close> with the code exactly
  when a response arrives whose status code is at least 200 and below 300, \<open>DOWN\<close> with
  the code for every other response, and \<open>DOWN\<close> with \<open>None\<close> when \<open>requests.get\<close> raises
  a \<open>RequestException\<close>. Any other exception of \<open>requests.get\<close> is not caught and leaves
  the function.
\<close>

theorem check_app_status_outcomes:
  "(requests_get url timeout = Inr code \<longrightarrow>
      check_app_status requests_get url timeout =
        Inr (if 200 \<le> code \<and> code < 300 then ''UP'' else ''DOWN'', Some code)) \<and>
   (requests_get url timeout = Inl e \<and> is_RequestException e \<longrightarrow>
      check_app_status requests_get url timeout = Inr (''DOWN'', None)) \<and>
   (requests_get url timeout = Inl e \<and> \<not> is_RequestException e \<longrightarrow>
      check_app_status requests_get url timeout = Inl e) \<and>
   (check_app_status requests_get url timeout = Inr (''UP'', c) \<longleftrightarrow>
      (\<exists>k. c = Some k \<and> requests_get url timeout = Inr k \<and> 200 \<le> k \<and> k < 300))"
  by (auto simp: check_app_status_def split: sum.splits)

theorem check_app_status_outcomes_witness:
  "check_app_status sample_get ''http://up.example'' 10 = Inr (''UP'', Some 204) \<and>
   check_app_status sample_get ''http://down.example'' 10 = Inr (''DOWN'', Some 503) \<and>
   check_app_status sample_get ''http://lost.example'' 10 = Inr (''DOWN'', None)"
proof -
  have h: "sample_get ''http://up.example'' 10 = Inr 204"
    "sample_get ''http://down.example'' 10 = Inr 503"
    "sample_get ''http://lost.example'' 10 = Inl RequestException"
    "is_RequestException RequestException"
    by (simp_all add: sample_get_def)
  from h
    check_app_status_outcomes[of sample_get "''http://up.example''" 10 204]
    check_app_status_outcomes[of sample_get "''http://down.example''" 10 503]
    check_app_status_outcomes[of sample_get "''http://lost.example''" 10 _ RequestException]
  show ?thesis by simp
qed

text \<open>
  The claim as the specification states it, that the function never raises, is false for
  a timeout of 0, which \<open>requests.get\<close> rejects with a \<open>ValueError\<close>, and for a
  request that is interrupted from the keyboard: neither exception is a
  \<open>RequestException\<close>.
\<close>

theorem check_app_status_raises_on_zero_timeout:
  "check_app_status sample_get ''http://up.example'' 0 = Inl ValueError \<and>
   check_app_status interrupted_get ''http://up.example'' 10 = Inl KeyboardInterrupt"
  by (simp add: check_app_status_def sample_get_def interrupted_get_def)

end
